theory Spec2Isabelle
  imports Main "HOL-Library.Sublist"
begin

section \<open>Data model\<close>

text \<open>
  The functions of \<^verbatim>\<open>semchunk/boundaries.py\<close> work on Python strings and on lists of
  Python integers. A Python string is a sequence of code points; the code only compares
  code points for equality and counts them, so a string is a list of code points here.
  Offsets are Python integers (\<open>int\<close>): the adapter subtracts and compares them, and the
  result may be negative.
\<close>

type_synonym str = "nat list"

abbreviation lit :: "string \<Rightarrow> str" where
  "lit s \<equiv> map of_char s"

text \<open>
  The exceptions the code can raise: \<open>delimiters[0]\<close> on an empty list (IndexError), the
  \<open>assert\<close> of \<open>get_split_offsets\<close> (AssertionError, the specification's
  InvalidArgument) and the \<open>raise ValueError\<close> of \<open>get_semantic_bounderies\<close> (the
  specification's UnknownGranularity).
\<close>

datatype error = IndexError | AssertionError | ValueError

text \<open>
  The document argument is either a \<open>str\<close> or a spaCy \<open>Doc\<close>. Of a \<open>Doc\<close> the code reads
  \<open>doc.text\<close>, \<open>sent.start_char\<close> for every sentence of \<open>doc.sents\<close> and \<open>token.idx\<close> for
  every token.
\<close>

datatype document =
    PlainText str
  | AnnotatedDoc str "int list" "int list"

section \<open>The splitter: \<open>get_split_offsets\<close>\<close>

text \<open>
  \<open>re.split\<close> on the pattern \<open>"|".join(re.escape(d) for d in delimiters)\<close>: an ordered
  alternation of literals. The scan walks the text from the left; at every position the
  first alternative that is a prefix of the rest of the text matches, the piece collected
  so far is emitted and the scan goes on behind the match. After an empty match the next
  match at the same position must be non-empty (the flag \<open>adv\<close>, CPython's
  \<open>must_advance\<close>), so an empty delimiter splits between all characters, as
  \<open>re.split\<close> does from Python 3.7 on. The rest of the text behind the last match is the
  last piece. No group is captured (\<open>re.escape\<close> leaves none), so the result holds the
  pieces only.
\<close>

function split_scan :: "str list \<Rightarrow> bool \<Rightarrow> str \<Rightarrow> str \<Rightarrow> str list" where
  "split_scan ds adv acc r =
     (case find (\<lambda>d. prefix d r \<and> (adv \<longrightarrow> d \<noteq> [])) ds of
        Some d \<Rightarrow>
          acc # (if d = [] then split_scan ds True [] r
                 else split_scan ds False [] (drop (length d) r))
      | None \<Rightarrow>
          (case r of
             [] \<Rightarrow> [acc]
           | c # cs \<Rightarrow> split_scan ds False (acc @ [c]) cs))"
  by pat_completeness auto
termination
proof (relation "measure (\<lambda>(ds, adv, acc, r). 2 * length r + (if adv then 0 else 1))")
  fix ds :: "str list" and adv :: bool and acc r d :: str
  assume f: "find (\<lambda>d. prefix d r \<and> (adv \<longrightarrow> d \<noteq> [])) ds = Some d"
  from f have p: "prefix d r" and a: "adv \<longrightarrow> d \<noteq> []"
    by (auto simp: find_Some_iff)
  {
    assume "d = []"
    with a show "((ds, True, [], r), ds, adv, acc, r)
        \<in> measure (\<lambda>(ds, adv, acc, r). 2 * length r + (if adv then 0 else 1))"
      by simp
  }
  {
    assume "d \<noteq> []"
    moreover from p have "length d \<le> length r" by (rule prefix_length_le)
    ultimately show "((ds, False, [], drop (length d) r), ds, adv, acc, r)
        \<in> measure (\<lambda>(ds, adv, acc, r). 2 * length r + (if adv then 0 else 1))"
      by (cases d) auto
  }
qed auto

declare split_scan.simps [simp del]

definition re_split :: "str list \<Rightarrow> str \<Rightarrow> str list" where
  "re_split ds text = split_scan ds False [] text"

text \<open>
  The loop of lines 17 to 19: every piece appends the running \<open>start_char\<close> to
  \<open>start_chars\<close> and advances it by the piece's length plus \<open>delimiter_len\<close>.
\<close>

fun offsets_loop :: "int \<Rightarrow> int \<Rightarrow> int list \<Rightarrow> str list \<Rightarrow> int list" where
  "offsets_loop delimiter_len start_char start_chars [] = start_chars"
| "offsets_loop delimiter_len start_char start_chars (p # ps) =
     offsets_loop delimiter_len (start_char + (int (length p) + delimiter_len))
       (start_chars @ [start_char]) ps"

definition get_split_offsets :: "str \<Rightarrow> str list \<Rightarrow> error + int list" where
  "get_split_offsets text delimiters =
     (case delimiters of
        [] \<Rightarrow> Inl IndexError
      | d0 # rest \<Rightarrow>
          (let delimiter_len = int (length d0) in
           if \<not> list_all (\<lambda>d. int (length d) = delimiter_len) rest then Inl AssertionError
           else Inr (offsets_loop delimiter_len 0 [] (re_split delimiters text))))"

section \<open>The adapter: \<open>adapt_semantic_boundaries\<close>\<close>

text \<open>
  Lines 108 to 111: the offset relative to the chunk, moved by \<open>added_chars_len\<close> when it
  lies at or behind \<open>added_chars_end_pos\<close>.
\<close>

definition shift_offset :: "int \<Rightarrow> int \<Rightarrow> int \<Rightarrow> int \<Rightarrow> int" where
  "shift_offset chunk_char_offset added_chars_len added_chars_end_pos b =
     (let new_b = b - chunk_char_offset in
      if new_b \<ge> added_chars_end_pos then new_b + added_chars_len else new_b)"

text \<open>
  What the body of the inner loop does with one offset (lines 112 to 117): append the
  shifted offset, leave the loop, or go on with the next offset.
\<close>

datatype step = Append int | Break | Continue

definition loop_body :: "int \<Rightarrow> int \<Rightarrow> int \<Rightarrow> int \<Rightarrow> int \<Rightarrow> step" where
  "loop_body chunk_char_offset chunk_len added_chars_len added_chars_end_pos b =
     (let new_b = shift_offset chunk_char_offset added_chars_len added_chars_end_pos b in
      if new_b \<ge> 0 \<and> new_b \<le> chunk_len then Append new_b
      else if new_b > chunk_len then Break
      else Continue)"

text \<open>The inner loop over one level; \<open>out\<close> is \<open>boundaries_[i]\<close>.\<close>

fun adapt_level :: "int \<Rightarrow> int \<Rightarrow> int \<Rightarrow> int \<Rightarrow> int list \<Rightarrow> int list \<Rightarrow> int list" where
  "adapt_level off len add endp out [] = out"
| "adapt_level off len add endp out (b # bs) =
     (case loop_body off len add endp b of
        Append new_b \<Rightarrow> adapt_level off len add endp (out @ [new_b]) bs
      | Break \<Rightarrow> out
      | Continue \<Rightarrow> adapt_level off len add endp out bs)"

text \<open>Lines 120 to 122: \<open>if len(b) == 0 or b[0] != 0: b.insert(0, 0)\<close>.\<close>

definition add_start_boundary :: "int list \<Rightarrow> int list" where
  "add_start_boundary b =
     (case b of
        [] \<Rightarrow> [0]
      | x # xs \<Rightarrow> if x \<noteq> 0 then 0 # b else b)"

text \<open>
  Every level of the result is a list of its own (\<open>boundaries_.append([])\<close>), and the
  argument is only read, so no two levels share storage and the function is a map over
  the levels.
\<close>

definition adapt_semantic_boundaries ::
  "int list list \<Rightarrow> int \<Rightarrow> int \<Rightarrow> int \<Rightarrow> int \<Rightarrow> int list list" where
  "adapt_semantic_boundaries boundaries chunk_char_offset chunk_len added_chars_len
       added_chars_end_pos =
     map add_start_boundary
       (map (adapt_level chunk_char_offset chunk_len added_chars_len added_chars_end_pos [])
          boundaries)"

text \<open>
  The full scan the early exit is compared with: every offset of the level is shifted
  and tested against the range on its own.
\<close>

definition full_scan_level :: "int \<Rightarrow> int \<Rightarrow> int \<Rightarrow> int \<Rightarrow> int list \<Rightarrow> int list" where
  "full_scan_level off len add endp bs =
     filter (\<lambda>x. 0 \<le> x \<and> x \<le> len) (map (shift_offset off add endp) bs)"

section \<open>The extractor: \<open>get_semantic_bounderies\<close>\<close>

text \<open>
  \<open>bisect.insort_left(a, x)\<close>: the binary search of \<open>bisect_left\<close> between \<open>lo = 0\<close> and
  \<open>hi = len(a)\<close>, then \<open>a.insert(lo, x)\<close>.
\<close>

function bisect_left :: "int list \<Rightarrow> int \<Rightarrow> nat \<Rightarrow> nat \<Rightarrow> nat" where
  "bisect_left a x lo hi =
     (if lo < hi then
        (if a ! ((lo + hi) div 2) < x then bisect_left a x ((lo + hi) div 2 + 1) hi
         else bisect_left a x lo ((lo + hi) div 2))
      else lo)"
  by pat_completeness auto
termination
  by (relation "measure (\<lambda>(a, x, lo, hi). hi - lo)") auto

declare bisect_left.simps [simp del]

definition insort_left :: "int list \<Rightarrow> int \<Rightarrow> int list" where
  "insort_left a x = (let i = bisect_left a x 0 (length a) in take i a @ x # drop i a)"

text \<open>
  The levels are Python lists, and the list \<open>boundaries\<close> holds references to them:
  \<open>boundaries.append(sentence_start_chars)\<close> appends the same list object every time
  \<open>"sentences"\<close> is requested (likewise \<open>token_start_chars\<close>), while \<open>"paragraphs"\<close> and
  \<open>"subparts"\<close> build a new list at every request. \<open>insort_left\<close> changes a list in place,
  so the lists live in a store, from addresses to lists, and \<open>boundaries\<close> is a list of
  addresses.
\<close>

type_synonym addr = nat
type_synonym heap = "addr \<Rightarrow> int list"

record state =
  boundaries :: "addr list"
  heap :: heap
  next_addr :: addr

text \<open>
  Lines 47 to 57: the text, the sentence offsets and the token offsets. For a plain
  string both splitter calls are made, whatever levels are requested.
\<close>

definition start_chars ::
  "document \<Rightarrow> str list \<Rightarrow> str list \<Rightarrow> error + (str \<times> int list \<times> int list)" where
  "start_chars doc sentence_boundary_chars token_boundary_chars =
     (case doc of
        PlainText text \<Rightarrow>
          (case get_split_offsets text sentence_boundary_chars of
             Inl e \<Rightarrow> Inl e
           | Inr sentence_start_chars \<Rightarrow>
               (case get_split_offsets text token_boundary_chars of
                  Inl e \<Rightarrow> Inl e
                | Inr token_start_chars \<Rightarrow>
                    Inr (text, sentence_start_chars, token_start_chars)))
      | AnnotatedDoc text sents tokens \<Rightarrow> Inr (text, sents, tokens))"

text \<open>
  Lines 60 to 76. \<open>sa\<close> and \<open>ta\<close> are the addresses of \<open>sentence_start_chars\<close> and
  \<open>token_start_chars\<close>; a new list is stored at \<open>next_addr\<close>.
\<close>

definition paragraph_delimiters :: "str list" where
  "paragraph_delimiters = [[10, 10]]"

definition subpart_delimiters :: "str list" where
  "subpart_delimiters = [lit '': '', lit ''; '', lit '', '']"

fun collect_levels :: "str \<Rightarrow> addr \<Rightarrow> addr \<Rightarrow> str list \<Rightarrow> state \<Rightarrow> error + state" where
  "collect_levels text sa ta [] s = Inr s"
| "collect_levels text sa ta (chunk_type # rest) s =
     (if chunk_type = lit ''paragraphs'' then
        (case get_split_offsets text paragraph_delimiters of
           Inl e \<Rightarrow> Inl e
         | Inr paragraph_start_chars \<Rightarrow>
             collect_levels text sa ta rest
               \<lparr>boundaries = boundaries s @ [next_addr s],
                heap = (heap s)(next_addr s := paragraph_start_chars),
                next_addr = Suc (next_addr s)\<rparr>)
      else if chunk_type = lit ''sentences'' then
        collect_levels text sa ta rest (s\<lparr>boundaries := boundaries s @ [sa]\<rparr>)
      else if chunk_type = lit ''subparts'' then
        (case get_split_offsets text subpart_delimiters of
           Inl e \<Rightarrow> Inl e
         | Inr subpart_start_chars \<Rightarrow>
             collect_levels text sa ta rest
               \<lparr>boundaries = boundaries s @ [next_addr s],
                heap = (heap s)(next_addr s := subpart_start_chars),
                next_addr = Suc (next_addr s)\<rparr>)
      else if chunk_type = lit ''tokens'' then
        collect_levels text sa ta rest (s\<lparr>boundaries := boundaries s @ [ta]\<rparr>)
      else Inl ValueError)"

text \<open>
  Lines 82 to 84 for one pair of levels at the addresses \<open>ai\<close> and \<open>aj\<close>. When both are
  the same list, every \<open>b\<close> is found in it and nothing is inserted, so the list the loop
  runs over is the one read at its start in every case.
\<close>

definition insert_missing :: "addr \<Rightarrow> addr \<Rightarrow> heap \<Rightarrow> heap" where
  "insert_missing ai aj h =
     foldl (\<lambda>h b. if b \<in> set (h aj) then h else h(aj := insort_left (h aj) b)) h (h ai)"

text \<open>Lines 80 and 81: \<open>range(0, len(boundaries)-1)\<close> and \<open>range(i+1, len(boundaries))\<close>.\<close>

definition enforce_subsets :: "addr list \<Rightarrow> heap \<Rightarrow> heap" where
  "enforce_subsets bs h =
     foldl (\<lambda>h i. foldl (\<lambda>h j. insert_missing (bs ! i) (bs ! j) h) h [i + 1 ..< length bs])
       h [0 ..< length bs - 1]"

definition get_semantic_bounderies ::
  "document \<Rightarrow> str list \<Rightarrow> str list \<Rightarrow> str list \<Rightarrow> error + int list list" where
  "get_semantic_bounderies doc ordered_semantic_chunk_types sentence_boundary_chars
       token_boundary_chars =
     (case start_chars doc sentence_boundary_chars token_boundary_chars of
        Inl e \<Rightarrow> Inl e
      | Inr (text, sentence_start_chars, token_start_chars) \<Rightarrow>
          (case collect_levels text 0 1 ordered_semantic_chunk_types
                  \<lparr>boundaries = [],
                   heap = (\<lambda>a. [])(0 := sentence_start_chars, 1 := token_start_chars),
                   next_addr = 2\<rparr> of
             Inl e \<Rightarrow> Inl e
           | Inr s \<Rightarrow> Inr (map (enforce_subsets (boundaries s) (heap s)) (boundaries s))))"

text \<open>The default arguments of \<open>get_semantic_bounderies\<close>.\<close>

definition default_chunk_types :: "str list" where
  "default_chunk_types = [lit ''paragraphs'', lit ''sentences'', lit ''subparts'', lit ''tokens'']"

definition default_sentence_boundary_chars :: "str list" where
  "default_sentence_boundary_chars = [lit ''. '', lit ''? '', lit ''! '']"

definition default_token_boundary_chars :: "str list" where
  "default_token_boundary_chars = [lit '' '']"

text \<open>
  The delimiter lists that pass the checks of \<open>get_split_offsets\<close>: not empty, and all
  delimiters as long as the first. A plain string hands both delimiter arguments to
  \<open>get_split_offsets\<close>; a \<open>Doc\<close> does not use them.
\<close>

definition uniform_delimiters :: "str list \<Rightarrow> bool" where
  "uniform_delimiters ds =
     (case ds of [] \<Rightarrow> False | d0 # rest \<Rightarrow> list_all (\<lambda>d. length d = length d0) rest)"

definition delimiters_ok :: "document \<Rightarrow> str list \<Rightarrow> str list \<Rightarrow> bool" where
  "delimiters_ok doc sentence_boundary_chars token_boundary_chars =
     (case doc of
        PlainText text \<Rightarrow>
          uniform_delimiters sentence_boundary_chars \<and> uniform_delimiters token_boundary_chars
      | AnnotatedDoc text sents tokens \<Rightarrow> True)"

fun doc_text :: "document \<Rightarrow> str" where
  "doc_text (PlainText text) = text"
| "doc_text (AnnotatedDoc text sents tokens) = text"

text \<open>
  The levels that share a list stand next to each other: whenever two positions of the
  list of addresses hold the same address, so does every position between them.
\<close>

definition shared_levels_adjacent :: "addr list \<Rightarrow> bool" where
  "shared_levels_adjacent A \<longleftrightarrow>
     (\<forall>i j k. i < j \<and> j < k \<and> k < length A \<and> A ! i = A ! k \<longrightarrow> A ! j = A ! i)"

section \<open>Properties of the splitter\<close>

lemma offsets_loop_acc:
  "offsets_loop n s acc ps = acc @ offsets_loop n s [] ps"
proof (induction ps arbitrary: s acc)
  case Nil
  show ?case by simp
next
  case (Cons p ps)
  have "offsets_loop n s acc (p # ps) = offsets_loop n (s + (int (length p) + n)) (acc @ [s]) ps"
    by simp
  also have "\<dots> = (acc @ [s]) @ offsets_loop n (s + (int (length p) + n)) [] ps"
    by (rule Cons.IH)
  also have "\<dots> = acc @ offsets_loop n (s + (int (length p) + n)) [s] ps"
    using Cons.IH [of "s + (int (length p) + n)" "[s]"] by simp
  finally show ?case by simp
qed

lemma offsets_loop_Cons:
  "offsets_loop n s [] (p # ps) = s # offsets_loop n (s + (int (length p) + n)) [] ps"
  using offsets_loop_acc [of n "s + (int (length p) + n)" "[s]" ps] by simp

lemma length_offsets_loop: "length (offsets_loop n s [] ps) = length ps"
  by (induction ps arbitrary: s) (simp_all add: offsets_loop_Cons del: offsets_loop.simps(2))

lemma offsets_loop_first: "ps \<noteq> [] \<Longrightarrow> offsets_loop n s [] ps ! 0 = s"
  by (cases ps) (simp_all add: offsets_loop_Cons del: offsets_loop.simps(2))

lemma offsets_loop_next:
  "Suc i < length ps \<Longrightarrow>
   offsets_loop n s [] ps ! Suc i = offsets_loop n s [] ps ! i + int (length (ps ! i)) + n"
proof (induction ps arbitrary: s i)
  case Nil
  then show ?case by simp
next
  case (Cons p ps)
  show ?case
  proof (cases i)
    case 0
    with Cons.prems have "ps \<noteq> []" by auto
    with 0 show ?thesis
      by (simp add: offsets_loop_Cons offsets_loop_first del: offsets_loop.simps(2))
  next
    case (Suc k)
    with Cons.prems have "Suc k < length ps" by simp
    from Cons.IH [OF this] Suc show ?thesis
      by (simp add: offsets_loop_Cons del: offsets_loop.simps(2))
  qed
qed

lemma split_scan_nonempty: "split_scan ds adv acc r \<noteq> []"
proof (induction r arbitrary: adv acc)
  case Nil
  show ?case by (subst split_scan.simps) (simp split: option.split)
next
  case (Cons c cs)
  show ?case by (subst split_scan.simps) (simp split: option.split add: Cons.IH)
qed

lemma split_scan_no_match:
  "\<forall>d\<in>set ds. \<not> sublist d (acc @ r) \<Longrightarrow> split_scan ds adv acc r = [acc @ r]"
proof (induction r arbitrary: acc adv)
  case Nil
  have "find (\<lambda>d. prefix d [] \<and> (adv \<longrightarrow> d \<noteq> [])) ds = None"
    using Nil by (auto simp: find_None_iff)
  then show ?case by (subst split_scan.simps) simp
next
  case (Cons c cs)
  have "\<not> prefix d (c # cs)" if "d \<in> set ds" for d
  proof
    assume "prefix d (c # cs)"
    then have "sublist d (acc @ c # cs)"
      by (auto simp: prefix_def sublist_def)
    with Cons.prems that show False by blast
  qed
  then have "find (\<lambda>d. prefix d (c # cs) \<and> (adv \<longrightarrow> d \<noteq> [])) ds = None"
    by (auto simp: find_None_iff)
  moreover have "split_scan ds False (acc @ [c]) cs = [(acc @ [c]) @ cs]"
    using Cons.prems by (intro Cons.IH) simp
  ultimately show ?case by (subst split_scan.simps) simp
qed

lemma uniform_lengths:
  assumes "delimiters = d0 # rest" "\<forall>d\<in>set delimiters. length d = n"
  shows "list_all (\<lambda>d. int (length d) = int (length d0)) rest"
  using assms by (auto simp: list_all_iff)

lemma get_split_offsets_uniform:
  assumes "delimiters \<noteq> []" "\<forall>d\<in>set delimiters. length d = n"
  shows "get_split_offsets text delimiters = Inr (offsets_loop (int n) 0 [] (re_split delimiters text))"
proof -
  from assms(1) obtain d0 rest where d: "delimiters = d0 # rest" by (cases delimiters) auto
  with assms(2) have "length d0 = n" by simp
  moreover have "list_all (\<lambda>d. int (length d) = int (length d0)) rest"
    using d assms(2) by (rule uniform_lengths)
  ultimately show ?thesis by (simp add: get_split_offsets_def d)
qed

lemma get_split_offsets_mixed:
  assumes "d1 \<in> set delimiters" "d2 \<in> set delimiters" "length d1 \<noteq> length d2"
  shows "get_split_offsets text delimiters = Inl AssertionError"
proof -
  from assms(1) obtain d0 rest where d: "delimiters = d0 # rest" by (cases delimiters) auto
  have "\<not> list_all (\<lambda>d. int (length d) = int (length d0)) rest"
  proof
    assume "list_all (\<lambda>d. int (length d) = int (length d0)) rest"
    then have "\<forall>d\<in>set delimiters. length d = length d0"
      by (auto simp: d list_all_iff)
    with assms show False by auto
  qed
  then show ?thesis by (simp add: get_split_offsets_def d)
qed

text \<open>
  Claim C6. When the delimiter list holds two strings of differing lengths (so it is not
  empty), \<open>get_split_offsets\<close> raises the AssertionError of line 16, for every text, and
  returns no offsets. The delimiters \<open>["ab", "c"]\<close> are the instance of the witness.
\<close>

theorem get_split_offsets_rejects_mixed_lengths:
  assumes "d1 \<in> set delimiters" and "d2 \<in> set delimiters" and "length d1 \<noteq> length d2"
  shows "get_split_offsets text delimiters = Inl AssertionError"
  using assms by (rule get_split_offsets_mixed)

theorem get_split_offsets_rejects_mixed_lengths_witness:
  "lit ''ab'' \<in> set [lit ''ab'', lit ''c''] \<and> lit ''c'' \<in> set [lit ''ab'', lit ''c'']
   \<and> length (lit ''ab'') \<noteq> length (lit ''c'')
   \<and> get_split_offsets (lit ''abc'') [lit ''ab'', lit ''c''] = Inl AssertionError"
  using get_split_offsets_rejects_mixed_lengths
    [of "lit ''ab''" "[lit ''ab'', lit ''c'']" "lit ''c''" "lit ''abc''"]
  by simp

text \<open>
  Claim C8. For a non-empty list of delimiters of one common length \<open>n\<close>,
  \<open>get_split_offsets\<close> returns one offset per piece of \<open>re.split\<close>; the first offset is
  0, and every further offset is the one before it plus the length of the piece before it
  plus \<open>n\<close>. When no delimiter occurs in the text the result is the single offset 0.
  Splitting \<open>"a. b? c! "\<close> on \<open>[". ", "? ", "! "]\<close> gives the offsets 0, 3, 6, 9.
\<close>

theorem get_split_offsets_piece_offsets:
  assumes "delimiters \<noteq> []" and "\<forall>d\<in>set delimiters. length d = n"
  shows "(\<exists>offsets. get_split_offsets text delimiters = Inr offsets
            \<and> length offsets = length (re_split delimiters text)
            \<and> offsets ! 0 = 0
            \<and> (\<forall>i. Suc i < length offsets \<longrightarrow>
                   offsets ! Suc i
                   = offsets ! i + int (length (re_split delimiters text ! i)) + int n)
            \<and> ((\<forall>d\<in>set delimiters. \<not> sublist d text) \<longrightarrow> offsets = [0]))
         \<and> get_split_offsets (lit ''a. b? c! '') [lit ''. '', lit ''? '', lit ''! '']
             = Inr [0, 3, 6, 9]"
proof -
  let ?ps = "re_split delimiters text"
  let ?offs = "offsets_loop (int n) 0 [] ?ps"
  have r: "get_split_offsets text delimiters = Inr ?offs"
    using assms by (rule get_split_offsets_uniform)
  have ne: "?ps \<noteq> []"
    by (simp add: re_split_def split_scan_nonempty)
  have len: "length ?offs = length ?ps"
    by (rule length_offsets_loop)
  have first: "?offs ! 0 = 0"
    using ne by (rule offsets_loop_first)
  have nxt: "\<forall>i. Suc i < length ?offs \<longrightarrow>
      ?offs ! Suc i = ?offs ! i + int (length (?ps ! i)) + int n"
    by (simp add: len offsets_loop_next)
  have none: "(\<forall>d\<in>set delimiters. \<not> sublist d text) \<longrightarrow> ?offs = [0]"
  proof
    assume "\<forall>d\<in>set delimiters. \<not> sublist d text"
    then have "split_scan delimiters False [] text = [[] @ text]"
      by (intro split_scan_no_match) simp
    then show "?offs = [0]" by (simp add: re_split_def)
  qed
  have ex: "get_split_offsets (lit ''a. b? c! '') [lit ''. '', lit ''? '', lit ''! '']
      = Inr [0, 3, 6, 9]"
    by (simp add: get_split_offsets_def re_split_def split_scan.simps)
  from r len first nxt none ex show ?thesis by blast
qed

theorem get_split_offsets_piece_offsets_witness:
  "[lit '' ''] \<noteq> [] \<and> list_all (\<lambda>d. length d = 1) [lit '' '']
   \<and> re_split [lit '' ''] (lit ''ab c'') = [lit ''ab'', lit ''c'']
   \<and> get_split_offsets (lit ''ab c'') [lit '' ''] = Inr [0, 3]
   \<and> Suc 0 < length [0, 3 :: int]
   \<and> list_all (\<lambda>d. \<not> sublist d (lit ''abc'')) [lit '' '']
   \<and> get_split_offsets (lit ''abc'') [lit '' ''] = Inr [0]"
  using get_split_offsets_piece_offsets [of "[lit '' '']" 1 "lit ''ab c''"]
    get_split_offsets_piece_offsets [of "[lit '' '']" 1 "lit ''abc''"]
  by (simp add: get_split_offsets_def re_split_def split_scan.simps sublist_Cons_right)

section \<open>Properties of the adapter\<close>

lemma adapt_level_acc:
  "adapt_level off len add endp out bs = out @ adapt_level off len add endp [] bs"
proof (induction bs arbitrary: out)
  case Nil
  show ?case by simp
next
  case (Cons b bs)
  show ?case
  proof (cases "loop_body off len add endp b")
    case (Append v)
    then show ?thesis
      using Cons.IH [of "out @ [v]"] Cons.IH [of "[v]"] by simp
  next
    case Break
    then show ?thesis by simp
  next
    case Continue
    then show ?thesis using Cons.IH [of out] by simp
  qed
qed

lemma loop_body_Append_iff:
  "loop_body off len add endp b = Append v \<longleftrightarrow>
   v = shift_offset off add endp b \<and> 0 \<le> v \<and> v \<le> len"
  by (auto simp: loop_body_def Let_def)

lemma loop_body_Break_iff:
  "loop_body off len add endp b = Break \<longleftrightarrow>
   len < shift_offset off add endp b \<and> \<not> (0 \<le> shift_offset off add endp b \<and> shift_offset off add endp b \<le> len)"
  by (auto simp: loop_body_def Let_def)

lemma loop_body_Continue_iff:
  "loop_body off len add endp b = Continue \<longleftrightarrow>
   shift_offset off add endp b < 0 \<and> shift_offset off add endp b \<le> len"
  by (auto simp: loop_body_def Let_def)

lemma adapt_level_in_range:
  "x \<in> set (adapt_level off len add endp [] bs) \<Longrightarrow> 0 \<le> x \<and> x \<le> len"
proof (induction bs)
  case Nil
  then show ?case by simp
next
  case (Cons b bs)
  show ?case
  proof (cases "loop_body off len add endp b")
    case (Append v)
    with Cons.prems have "x \<in> set ([v] @ adapt_level off len add endp [] bs)"
      using adapt_level_acc [of off len add endp "[v]" bs] by simp
    with Append Cons.IH show ?thesis by (auto simp: loop_body_Append_iff)
  next
    case Break
    with Cons.prems show ?thesis by simp
  next
    case Continue
    with Cons.prems Cons.IH show ?thesis by simp
  qed
qed

lemma shift_offset_mono:
  assumes "0 \<le> add" and "b \<le> b'"
  shows "shift_offset off add endp b \<le> shift_offset off add endp b'"
  using assms by (auto simp: shift_offset_def Let_def)

lemma adapt_level_sorted_full_scan:
  assumes "sorted bs" and "0 \<le> add"
  shows "adapt_level off len add endp [] bs = full_scan_level off len add endp bs"
  using assms(1)
proof (induction bs)
  case Nil
  show ?case by (simp add: full_scan_level_def)
next
  case (Cons b bs)
  from Cons.prems have sorted_bs: "sorted bs" and le: "\<forall>b'\<in>set bs. b \<le> b'" by auto
  note IH = Cons.IH [OF sorted_bs]
  show ?case
  proof (cases "loop_body off len add endp b")
    case (Append v)
    then have "adapt_level off len add endp [] (b # bs) = [v] @ adapt_level off len add endp [] bs"
      using adapt_level_acc [of off len add endp "[v]" bs] by simp
    moreover from Append have "v = shift_offset off add endp b" "0 \<le> v" "v \<le> len"
      by (simp_all add: loop_body_Append_iff)
    ultimately show ?thesis using IH by (simp add: full_scan_level_def)
  next
    case Break
    then have gt: "len < shift_offset off add endp b"
      by (simp add: loop_body_Break_iff)
    have "len < shift_offset off add endp b'" if "b' \<in> set bs" for b'
    proof -
      from le that have "b \<le> b'" by blast
      with assms(2) have "shift_offset off add endp b \<le> shift_offset off add endp b'"
        by (rule shift_offset_mono)
      with gt show ?thesis by simp
    qed
    then have "filter (\<lambda>x. 0 \<le> x \<and> x \<le> len) (map (shift_offset off add endp) bs) = []"
      by (fastforce simp: filter_empty_conv)
    moreover from Break have "adapt_level off len add endp [] (b # bs) = []"
      by simp
    ultimately show ?thesis using gt by (simp add: full_scan_level_def)
  next
    case Continue
    then have lt: "shift_offset off add endp b < 0"
      by (simp add: loop_body_Continue_iff)
    from Continue have "adapt_level off len add endp [] (b # bs)
        = adapt_level off len add endp [] bs"
      by simp
    with IH lt show ?thesis by (simp add: full_scan_level_def)
  qed
qed

lemma sorted_skipped_above:
  assumes "sorted bs" and "0 \<le> add" and "bs = pre @ b # rest"
    and "len < shift_offset off add endp b" and "b' \<in> set rest"
  shows "len < shift_offset off add endp b'"
proof -
  from assms(1,3,5) have "b \<le> b'" by (auto simp: sorted_append)
  with assms(2) have "shift_offset off add endp b \<le> shift_offset off add endp b'"
    by (rule shift_offset_mono)
  with assms(4) show ?thesis by simp
qed

lemma add_start_boundary_hd: "add_start_boundary b \<noteq> [] \<and> hd (add_start_boundary b) = 0"
  by (cases b) (simp_all add: add_start_boundary_def)

lemma set_add_start_boundary: "set (add_start_boundary b) = insert 0 (set b)"
  by (auto simp: add_start_boundary_def split: list.split)

lemma length_adapt_semantic_boundaries:
  "length (adapt_semantic_boundaries B off len add endp) = length B"
  by (simp add: adapt_semantic_boundaries_def)

lemma nth_adapt_semantic_boundaries:
  "i < length B \<Longrightarrow>
   adapt_semantic_boundaries B off len add endp ! i
   = add_start_boundary (adapt_level off len add endp [] (B ! i))"
  by (simp add: adapt_semantic_boundaries_def)

lemma set_full_scan_mono:
  "set xs \<subseteq> set ys \<Longrightarrow>
   set (full_scan_level off len add endp xs) \<subseteq> set (full_scan_level off len add endp ys)"
  by (auto simp: full_scan_level_def)

text \<open>
  Claim C2. For every hierarchy and every window, each level that
  \<open>adapt_semantic_boundaries\<close> returns is non-empty and its first element is 0.
\<close>

theorem adapt_levels_start_with_zero:
  "\<forall>level\<in>set (adapt_semantic_boundaries hierarchy chunk_char_offset chunk_len
       added_chars_len added_chars_end_pos). level \<noteq> [] \<and> hd level = 0"
  by (auto simp: adapt_semantic_boundaries_def add_start_boundary_hd)

theorem adapt_levels_start_with_zero_witness:
  "adapt_semantic_boundaries [[0, 10], [0, 3, 5, 10], []] 3 7 0 0 = [[0, 7], [0, 2, 7], [0]]
   \<and> list_all (\<lambda>level. level \<noteq> [] \<and> hd level = 0) [[0, 7], [0, 2, 7], [0 :: int]]"
  using adapt_levels_start_with_zero [of "[[0, 10], [0, 3, 5, 10], []]" 3 7 0 0]
  by (simp add: adapt_semantic_boundaries_def add_start_boundary_def loop_body_def
      shift_offset_def)

text \<open>
  Claim C3. For a window with \<open>chunk_len \<ge> 0\<close>, every offset of every level that
  \<open>adapt_semantic_boundaries\<close> returns lies between 0 and \<open>chunk_len\<close>, both included.
\<close>

theorem adapt_offsets_in_range:
  assumes "0 \<le> chunk_len"
  shows "\<forall>level\<in>set (adapt_semantic_boundaries hierarchy chunk_char_offset chunk_len
       added_chars_len added_chars_end_pos). \<forall>x\<in>set level. 0 \<le> x \<and> x \<le> chunk_len"
  using assms
  by (auto simp: adapt_semantic_boundaries_def set_add_start_boundary
      dest: adapt_level_in_range)

theorem adapt_offsets_in_range_witness:
  "(0::int) \<le> 7
   \<and> adapt_semantic_boundaries [[0, 10], [0, 3, 5, 10, 12]] 3 7 0 0 = [[0, 7], [0, 2, 7]]
   \<and> list_all (\<lambda>level. list_all (\<lambda>x. 0 \<le> x \<and> x \<le> 7) level) [[0, 7], [0, 2, 7 :: int]]"
  using adapt_offsets_in_range [of 7 "[[0, 10], [0, 3, 5, 10, 12]]" 3 0 0]
  by (simp add: adapt_semantic_boundaries_def add_start_boundary_def loop_body_def
      shift_offset_def)

text \<open>
  Claim C4. For a level in strictly ascending order and \<open>added_chars_len \<ge> 0\<close>, the
  loop with its early exit keeps exactly the offsets that the full scan keeps, which
  shifts every offset and tests it against the range from 0 to \<open>chunk_len\<close> on its own;
  every offset behind one that is shifted above \<open>chunk_len\<close> is shifted above
  \<open>chunk_len\<close> too.
\<close>

theorem early_exit_is_full_scan:
  assumes "sorted_wrt (<) bs" and "0 \<le> added_chars_len"
  shows "adapt_level chunk_char_offset chunk_len added_chars_len added_chars_end_pos [] bs
         = full_scan_level chunk_char_offset chunk_len added_chars_len added_chars_end_pos bs
       \<and> (\<forall>pre b rest b'. bs = pre @ b # rest
              \<and> chunk_len < shift_offset chunk_char_offset added_chars_len added_chars_end_pos b
              \<and> b' \<in> set rest
            \<longrightarrow> chunk_len < shift_offset chunk_char_offset added_chars_len added_chars_end_pos b')"
proof -
  from assms(1) have s: "sorted bs"
    by (rule strict_sorted_imp_sorted)
  from s assms(2) have "adapt_level chunk_char_offset chunk_len added_chars_len
      added_chars_end_pos [] bs
    = full_scan_level chunk_char_offset chunk_len added_chars_len added_chars_end_pos bs"
    by (rule adapt_level_sorted_full_scan)
  moreover have "\<forall>pre b rest b'. bs = pre @ b # rest
      \<and> chunk_len < shift_offset chunk_char_offset added_chars_len added_chars_end_pos b
      \<and> b' \<in> set rest
    \<longrightarrow> chunk_len < shift_offset chunk_char_offset added_chars_len added_chars_end_pos b'"
    using sorted_skipped_above [OF s assms(2)] by blast
  ultimately show ?thesis by simp
qed

theorem early_exit_is_full_scan_witness:
  "sorted_wrt (<) [0, 3, 5, 10, 12 :: int] \<and> (0::int) \<le> 2
   \<and> adapt_level 3 7 2 0 [] [0, 3, 5, 10, 12] = [2, 4]
   \<and> full_scan_level 3 7 2 0 [0, 3, 5, 10, 12] = [2, 4]
   \<and> [0, 3, 5, 10, 12 :: int] = [0, 3, 5] @ 10 # [12]
   \<and> (7::int) < shift_offset 3 2 0 10 \<and> (7::int) < shift_offset 3 2 0 12"
  using early_exit_is_full_scan [of "[0, 3, 5, 10, 12]" 2 3 7 0]
  by (simp add: full_scan_level_def loop_body_def shift_offset_def)

text \<open>
  Claim C5. \<open>added_chars_len\<close> is the number of added characters, so it is not
  negative. With \<open>added_chars_end_pos = 0\<close> the local offset \<open>b - chunk_char_offset\<close> is
  increased by \<open>added_chars_len\<close> exactly when it is not negative (first conjunct), and
  the range check reads the shifted value (second conjunct). Hence, for every
  \<open>added_chars_len \<ge> 0\<close>, the offset \<open>b\<close> is kept if and only if
  \<open>b - chunk_char_offset \<ge> 0\<close> and \<open>b - chunk_char_offset + added_chars_len \<le> chunk_len\<close>,
  and the value kept is \<open>b - chunk_char_offset + added_chars_len\<close> (fourth conjunct).
  The third conjunct is the same equivalence with the lower bound of the range check
  written out, which needs no assumption on \<open>added_chars_len\<close>. The last conjunct reads
  the same off the loop itself, for any output so far and any offsets still to come.
\<close>

theorem shift_applied_before_range_check:
  "shift_offset chunk_char_offset added_chars_len 0 b
     = (if 0 \<le> b - chunk_char_offset then b - chunk_char_offset + added_chars_len
        else b - chunk_char_offset)
   \<and> (loop_body chunk_char_offset chunk_len added_chars_len 0 b = Append v
        \<longleftrightarrow> v = shift_offset chunk_char_offset added_chars_len 0 b \<and> 0 \<le> v \<and> v \<le> chunk_len)
   \<and> (loop_body chunk_char_offset chunk_len added_chars_len 0 b = Append v
        \<longleftrightarrow> 0 \<le> b - chunk_char_offset
            \<and> 0 \<le> b - chunk_char_offset + added_chars_len
            \<and> b - chunk_char_offset + added_chars_len \<le> chunk_len
            \<and> v = b - chunk_char_offset + added_chars_len)
   \<and> (0 \<le> added_chars_len \<longrightarrow>
        (loop_body chunk_char_offset chunk_len added_chars_len 0 b = Append v
         \<longleftrightarrow> 0 \<le> b - chunk_char_offset
             \<and> b - chunk_char_offset + added_chars_len \<le> chunk_len
             \<and> v = b - chunk_char_offset + added_chars_len))
   \<and> adapt_level chunk_char_offset chunk_len added_chars_len 0 out (b # bs)
       = (if 0 \<le> b - chunk_char_offset
             \<and> 0 \<le> b - chunk_char_offset + added_chars_len
             \<and> b - chunk_char_offset + added_chars_len \<le> chunk_len
          then adapt_level chunk_char_offset chunk_len added_chars_len 0
                 (out @ [b - chunk_char_offset + added_chars_len]) bs
          else if chunk_len < shift_offset chunk_char_offset added_chars_len 0 b then out
          else adapt_level chunk_char_offset chunk_len added_chars_len 0 out bs)"
proof -
  have 1: "shift_offset chunk_char_offset added_chars_len 0 b
     = (if 0 \<le> b - chunk_char_offset then b - chunk_char_offset + added_chars_len
        else b - chunk_char_offset)"
    by (simp add: shift_offset_def Let_def)
  have 2: "loop_body chunk_char_offset chunk_len added_chars_len 0 b = Append v
        \<longleftrightarrow> v = shift_offset chunk_char_offset added_chars_len 0 b \<and> 0 \<le> v \<and> v \<le> chunk_len"
    by (rule loop_body_Append_iff)
  have 3: "loop_body chunk_char_offset chunk_len added_chars_len 0 b = Append v
        \<longleftrightarrow> 0 \<le> b - chunk_char_offset
            \<and> 0 \<le> b - chunk_char_offset + added_chars_len
            \<and> b - chunk_char_offset + added_chars_len \<le> chunk_len
            \<and> v = b - chunk_char_offset + added_chars_len"
    unfolding 2 1 by auto
  have 4: "0 \<le> added_chars_len \<longrightarrow>
        (loop_body chunk_char_offset chunk_len added_chars_len 0 b = Append v
         \<longleftrightarrow> 0 \<le> b - chunk_char_offset
             \<and> b - chunk_char_offset + added_chars_len \<le> chunk_len
             \<and> v = b - chunk_char_offset + added_chars_len)"
    unfolding 3 by auto
  have 5: "adapt_level chunk_char_offset chunk_len added_chars_len 0 out (b # bs)
       = (if 0 \<le> b - chunk_char_offset
             \<and> 0 \<le> b - chunk_char_offset + added_chars_len
             \<and> b - chunk_char_offset + added_chars_len \<le> chunk_len
          then adapt_level chunk_char_offset chunk_len added_chars_len 0
                 (out @ [b - chunk_char_offset + added_chars_len]) bs
          else if chunk_len < shift_offset chunk_char_offset added_chars_len 0 b then out
          else adapt_level chunk_char_offset chunk_len added_chars_len 0 out bs)"
    by (auto simp: loop_body_def shift_offset_def Let_def)
  from 1 2 3 4 5 show ?thesis by blast
qed

theorem shift_applied_before_range_check_witness:
  "(0::int) \<le> 5
   \<and> loop_body 3 12 5 0 5 = Append 7
   \<and> (0::int) \<le> 5 - 3 \<and> (5::int) - 3 + 5 \<le> 12 \<and> (7::int) = 5 - 3 + 5
   \<and> adapt_level 3 12 5 0 [] [0, 5, 10, 12] = [7, 12]"
  using shift_applied_before_range_check [of 3 5 5 12 7 "[]" "[10, 12]"]
  by (simp add: loop_body_def shift_offset_def)

lemma set_adapt_semantic_level:
  assumes "sorted l" and "0 \<le> add"
  shows "set (add_start_boundary (adapt_level off len add endp [] l))
         = insert 0 (set (full_scan_level off len add endp l))"
  using adapt_level_sorted_full_scan [OF assms] by (simp add: set_add_start_boundary)

text \<open>
  Claim C10. When every level of the hierarchy is in strictly ascending order, the
  hierarchy satisfies the subset invariant, \<open>chunk_len \<ge> 0\<close> and \<open>added_chars_len \<ge> 0\<close>,
  the hierarchy that \<open>adapt_semantic_boundaries\<close> returns has as many levels and
  satisfies the subset invariant.
\<close>

theorem adapt_preserves_subset_invariant:
  assumes "\<forall>level\<in>set hierarchy. sorted_wrt (<) level"
    and "\<forall>i j. i < j \<and> j < length hierarchy \<longrightarrow> set (hierarchy ! i) \<subseteq> set (hierarchy ! j)"
    and "0 \<le> chunk_len" and "0 \<le> added_chars_len"
  shows "length (adapt_semantic_boundaries hierarchy chunk_char_offset chunk_len
             added_chars_len added_chars_end_pos) = length hierarchy
       \<and> (\<forall>i j. i < j \<and> j < length hierarchy \<longrightarrow>
              set (adapt_semantic_boundaries hierarchy chunk_char_offset chunk_len
                     added_chars_len added_chars_end_pos ! i)
              \<subseteq> set (adapt_semantic_boundaries hierarchy chunk_char_offset chunk_len
                     added_chars_len added_chars_end_pos ! j))"
proof -
  let ?A = "adapt_semantic_boundaries hierarchy chunk_char_offset chunk_len
      added_chars_len added_chars_end_pos"
  have len: "length ?A = length hierarchy"
    by (rule length_adapt_semantic_boundaries)
  have lvl: "set (?A ! k) = insert 0 (set (full_scan_level chunk_char_offset chunk_len
      added_chars_len added_chars_end_pos (hierarchy ! k)))" if "k < length hierarchy" for k
  proof -
    from that assms(1) have "sorted_wrt (<) (hierarchy ! k)" by simp
    then have "sorted (hierarchy ! k)" by (rule strict_sorted_imp_sorted)
    from set_adapt_semantic_level [OF this assms(4)] that show ?thesis
      by (simp add: nth_adapt_semantic_boundaries)
  qed
  have "set (?A ! i) \<subseteq> set (?A ! j)" if "i < j" and "j < length hierarchy" for i j
  proof -
    from that assms(2) have "set (hierarchy ! i) \<subseteq> set (hierarchy ! j)" by blast
    then have "set (full_scan_level chunk_char_offset chunk_len added_chars_len
          added_chars_end_pos (hierarchy ! i))
        \<subseteq> set (full_scan_level chunk_char_offset chunk_len added_chars_len
          added_chars_end_pos (hierarchy ! j))"
      by (rule set_full_scan_mono)
    moreover from that have "i < length hierarchy" by simp
    ultimately show ?thesis using that(2) by (auto simp: lvl)
  qed
  with len show ?thesis by blast
qed

theorem adapt_preserves_subset_invariant_witness:
  "list_all (sorted_wrt (<)) [[0, 10], [0, 3, 5, 10 :: int]]
   \<and> set ([[0, 10], [0, 3, 5, 10 :: int]] ! 0) \<subseteq> set ([[0, 10], [0, 3, 5, 10]] ! 1)
   \<and> (0::int) \<le> 7 \<and> (0::int) \<le> 0
   \<and> adapt_semantic_boundaries [[0, 10], [0, 3, 5, 10]] 3 7 0 0 = [[0, 7], [0, 2, 7]]
   \<and> set [0, 7 :: int] \<subseteq> set [0, 2, 7]"
  using adapt_preserves_subset_invariant [of "[[0, 10], [0, 3, 5, 10]]" 7 0 3 0]
  by (simp add: adapt_semantic_boundaries_def add_start_boundary_def loop_body_def
      shift_offset_def)

section \<open>Properties of the extractor\<close>

subsection \<open>The enforcement loops\<close>

text \<open>
  Only the sets of offsets matter for the subset invariant. One run of lines 82 to 84
  adds the offsets of the list at \<open>ai\<close> to the list at \<open>aj\<close> and leaves every other list
  as it is, wherever \<open>insort_left\<close> puts the new offsets.
\<close>

lemma set_insort_left: "set (insort_left a x) = insert x (set a)"
proof -
  have "set (take i a) \<union> set (drop i a) = set a" for i
    using set_append [of "take i a" "drop i a"] by simp
  then show ?thesis by (auto simp: insort_left_def Let_def)
qed

lemma insert_missing_fold_other:
  "a \<noteq> aj \<Longrightarrow>
   foldl (\<lambda>h b. if b \<in> set (h aj) then h else h(aj := insort_left (h aj) b)) h xs a = h a"
  by (induction xs arbitrary: h) simp_all

lemma insert_missing_fold_set:
  "set (foldl (\<lambda>h b. if b \<in> set (h aj) then h else h(aj := insort_left (h aj) b)) h xs aj)
   = set (h aj) \<union> set xs"
proof (induction xs arbitrary: h)
  case Nil
  show ?case by simp
next
  case (Cons x xs)
  show ?case by (simp add: Cons.IH set_insort_left insert_absorb)
qed

lemma insert_missing_fold_same:
  "set xs \<subseteq> set (h aj) \<Longrightarrow>
   foldl (\<lambda>h b. if b \<in> set (h aj) then h else h(aj := insort_left (h aj) b)) h xs = h"
  by (induction xs arbitrary: h) simp_all

lemma insert_missing_other: "a \<noteq> aj \<Longrightarrow> insert_missing ai aj h a = h a"
  by (simp add: insert_missing_def insert_missing_fold_other)

lemma insert_missing_same: "insert_missing a a h = h"
  by (simp add: insert_missing_def insert_missing_fold_same)

lemma set_insert_missing:
  "set (insert_missing ai aj h a) = (if a = aj then set (h aj) \<union> set (h ai) else set (h a))"
  by (simp add: insert_missing_other) (simp add: insert_missing_def insert_missing_fold_set)

lemma inner_loop_sets:
  "set (foldl (\<lambda>h j. insert_missing (A ! i) (A ! j) h) h js a)
   = (if a \<in> (\<lambda>j. A ! j) ` set js then set (h a) \<union> set (h (A ! i)) else set (h a))"
proof (induction js arbitrary: h)
  case Nil
  show ?case by simp
next
  case (Cons j js)
  let ?h1 = "insert_missing (A ! i) (A ! j) h"
  have src: "set (?h1 (A ! i)) = set (h (A ! i))"
    by (simp add: set_insert_missing)
  have "set (foldl (\<lambda>h j. insert_missing (A ! i) (A ! j) h) ?h1 js a)
      = (if a \<in> (\<lambda>j. A ! j) ` set js then set (?h1 a) \<union> set (?h1 (A ! i)) else set (?h1 a))"
    by (rule Cons.IH)
  then show ?case
    unfolding src by (auto simp: set_insert_missing)
qed

lemma outer_loop_invariant:
  assumes "shared_levels_adjacent A" and "k \<le> length A"
  shows "\<forall>i j. i < k \<and> i < j \<and> j < length A \<longrightarrow>
           set (foldl (\<lambda>h i. foldl (\<lambda>h j. insert_missing (A ! i) (A ! j) h) h
                                [i + 1 ..< length A]) h [0 ..< k] (A ! i))
           \<subseteq> set (foldl (\<lambda>h i. foldl (\<lambda>h j. insert_missing (A ! i) (A ! j) h) h
                                [i + 1 ..< length A]) h [0 ..< k] (A ! j))"
  using assms(2)
proof (induction k)
  case 0
  show ?case by simp
next
  case (Suc k)
  let ?outer = "\<lambda>k. foldl (\<lambda>h i. foldl (\<lambda>h j. insert_missing (A ! i) (A ! j) h) h
      [i + 1 ..< length A]) h [0 ..< k]"
  let ?hk = "?outer k"
  let ?img = "(\<lambda>j. A ! j) ` set [k + 1 ..< length A]"
  from Suc.prems have k: "k < length A" by simp
  have step: "?outer (Suc k)
      = foldl (\<lambda>h j. insert_missing (A ! k) (A ! j) h) ?hk [k + 1 ..< length A]"
    by simp
  have sets: "set (?outer (Suc k) a)
      = (if a \<in> ?img then set (?hk a) \<union> set (?hk (A ! k)) else set (?hk a))" for a
    unfolding step by (rule inner_loop_sets)
  have shared: "A ! k = A ! i" if "i \<le> k" and "A ! i \<in> ?img" for i
  proof (cases "i = k")
    case True
    then show ?thesis by simp
  next
    case False
    from that(2) obtain m where mem: "m \<in> set [k + 1 ..< length A]" and eq: "A ! i = A ! m"
      by (rule imageE)
    from mem eq have m: "k < m" "m < length A" "A ! i = A ! m" by simp_all
    from False that(1) have "i < k" by simp
    with m assms(1) show ?thesis
      unfolding shared_levels_adjacent_def by blast
  qed
  have lhs: "set (?outer (Suc k) (A ! i)) = set (?hk (A ! i))" if "i \<le> k" for i
  proof (cases "A ! i \<in> ?img")
    case True
    from shared [OF that True] have "set (?hk (A ! i)) \<union> set (?hk (A ! k)) = set (?hk (A ! i))"
      by simp
    with True show ?thesis by (simp only: sets if_True)
  next
    case False
    then show ?thesis by (simp only: sets if_False)
  qed
  have rhs: "set (?hk a) \<subseteq> set (?outer (Suc k) a)" for a
    by (simp only: sets split: if_split) blast
  from Suc have IH: "\<forall>i j. i < k \<and> i < j \<and> j < length A \<longrightarrow>
      set (?hk (A ! i)) \<subseteq> set (?hk (A ! j))"
    by simp
  show ?case
  proof (intro allI impI)
    fix i j
    assume a: "i < Suc k \<and> i < j \<and> j < length A"
    then have ik: "i \<le> k" by simp
    show "set (?outer (Suc k) (A ! i)) \<subseteq> set (?outer (Suc k) (A ! j))"
    proof (cases "i = k")
      case True
      with a have "A ! j \<in> ?img" by auto
      then have "set (?outer (Suc k) (A ! j)) = set (?hk (A ! j)) \<union> set (?hk (A ! k))"
        by (simp only: sets if_True)
      with lhs [OF ik] True show ?thesis by blast
    next
      case False
      with a have "i < k \<and> i < j \<and> j < length A" by simp
      with IH have "set (?hk (A ! i)) \<subseteq> set (?hk (A ! j))" by blast
      with lhs [OF ik] rhs [of "A ! j"] show ?thesis by blast
    qed
  qed
qed

lemma enforce_subsets_invariant:
  assumes "shared_levels_adjacent A" and "i < j" and "j < length A"
  shows "set (enforce_subsets A h (A ! i)) \<subseteq> set (enforce_subsets A h (A ! j))"
proof -
  have "length A - 1 \<le> length A" by simp
  note inv = outer_loop_invariant [OF assms(1) this, of h]
  from assms have "i < length A - 1" by simp
  with assms inv show ?thesis
    unfolding enforce_subsets_def by blast
qed

subsection \<open>Collecting the levels\<close>

lemma get_split_offsets_uniform_delimiters:
  "uniform_delimiters ds \<Longrightarrow> \<exists>offsets. get_split_offsets text ds = Inr offsets"
  by (cases ds) (auto simp: uniform_delimiters_def get_split_offsets_def Let_def list_all_iff)

lemma get_split_offsets_paragraphs:
  "get_split_offsets text paragraph_delimiters
   = Inr (offsets_loop 2 0 [] (re_split paragraph_delimiters text))"
  by (simp add: get_split_offsets_def paragraph_delimiters_def)

lemma get_split_offsets_subparts:
  "get_split_offsets text subpart_delimiters
   = Inr (offsets_loop 2 0 [] (re_split subpart_delimiters text))"
  by (simp add: get_split_offsets_def subpart_delimiters_def)

lemma chunk_type_names:
  "lit ''paragraphs'' \<noteq> lit ''sentences''" "lit ''paragraphs'' \<noteq> lit ''subparts''"
  "lit ''paragraphs'' \<noteq> lit ''tokens''" "lit ''sentences'' \<noteq> lit ''subparts''"
  "lit ''sentences'' \<noteq> lit ''tokens''" "lit ''subparts'' \<noteq> lit ''tokens''"
  by simp_all

lemma known_chunk_type_iff:
  "t \<in> set default_chunk_types \<longleftrightarrow>
   t = lit ''paragraphs'' \<or> t = lit ''sentences'' \<or> t = lit ''subparts'' \<or> t = lit ''tokens''"
  unfolding default_chunk_types_def by (simp only: set_simps insert_iff empty_iff simp_thms)

lemma collect_levels_Cons:
  "collect_levels text sa ta (t # rest) s =
     (if t = lit ''paragraphs'' then
        collect_levels text sa ta rest
          \<lparr>boundaries = boundaries s @ [next_addr s],
           heap = (heap s)(next_addr s := offsets_loop 2 0 [] (re_split paragraph_delimiters text)),
           next_addr = Suc (next_addr s)\<rparr>
      else if t = lit ''sentences'' then
        collect_levels text sa ta rest (s\<lparr>boundaries := boundaries s @ [sa]\<rparr>)
      else if t = lit ''subparts'' then
        collect_levels text sa ta rest
          \<lparr>boundaries = boundaries s @ [next_addr s],
           heap = (heap s)(next_addr s := offsets_loop 2 0 [] (re_split subpart_delimiters text)),
           next_addr = Suc (next_addr s)\<rparr>
      else if t = lit ''tokens'' then
        collect_levels text sa ta rest (s\<lparr>boundaries := boundaries s @ [ta]\<rparr>)
      else Inl ValueError)"
  by (simp only: collect_levels.simps get_split_offsets_paragraphs get_split_offsets_subparts
      sum.case)

lemma collect_levels_unknown:
  assumes "t \<in> set types" and "t \<notin> set default_chunk_types"
  shows "collect_levels text sa ta types s = Inl ValueError"
  using assms(1)
proof (induction types arbitrary: s)
  case Nil
  then show ?case by simp
next
  case (Cons u rest)
  show ?case
  proof (cases "u = t")
    case True
    with assms(2) show ?thesis
      by (simp only: collect_levels_Cons known_chunk_type_iff) simp
  next
    case False
    with Cons.prems have "t \<in> set rest" by simp
    then show ?thesis
      by (simp only: collect_levels_Cons Cons.IH if_cancel)
  qed
qed

lemma collect_levels_known:
  assumes "set types \<subseteq> set default_chunk_types"
  shows "\<exists>s'. collect_levels text sa ta types s = Inr s'"
  using assms
proof (induction types arbitrary: s)
  case Nil
  show ?case by simp
next
  case (Cons u rest)
  from Cons.prems have u: "u \<in> set default_chunk_types"
    and rest: "set rest \<subseteq> set default_chunk_types" by simp_all
  from u consider "u = lit ''paragraphs''" | "u = lit ''sentences''" | "u = lit ''subparts''"
    | "u = lit ''tokens''"
    unfolding known_chunk_type_iff by blast
  then show ?case
    by cases (simp_all only: collect_levels_Cons chunk_type_names chunk_type_names [symmetric]
        simp_thms if_True if_False Cons.IH [OF rest])
qed

lemma collect_levels_length:
  "collect_levels text sa ta types s = Inr s' \<Longrightarrow>
   length (boundaries s') = length (boundaries s) + length types"
proof (induction types arbitrary: s)
  case Nil
  then show ?case by simp
next
  case (Cons u rest)
  from Cons.prems show ?case
    unfolding collect_levels_Cons
    by (auto split: if_splits dest!: Cons.IH)
qed

subsection \<open>Which levels share a list\<close>

text \<open>
  Only \<open>sentence_start_chars\<close> and \<open>token_start_chars\<close> can stand at several levels. When
  the repeated names are adjacent in the requested list, the levels that share a list are
  adjacent too.
\<close>

lemma adjacent_snoc:
  assumes "shared_levels_adjacent A" and "x \<notin> set A \<or> (A \<noteq> [] \<and> last A = x)"
  shows "shared_levels_adjacent (A @ [x])"
proof -
  have adj: "A ! j = A ! i" if "i < j" "j < k" "k < length A" "A ! i = A ! k" for i j k
    using assms(1) that unfolding shared_levels_adjacent_def by blast
  have "(A @ [x]) ! j = (A @ [x]) ! i"
    if ij: "i < j" and jk: "j < k" and k: "k < length (A @ [x])"
      and eq: "(A @ [x]) ! i = (A @ [x]) ! k" for i j k
  proof -
    from ij jk k have i: "i < length A" and j: "j < length A" by simp_all
    have "A ! j = A ! i"
    proof (cases "k < length A")
      case True
      with eq i have "A ! i = A ! k" by (simp add: nth_append)
      with ij jk True show ?thesis by (rule adj)
    next
      case False
      with k have "k = length A" by simp
      with eq i have xi: "A ! i = x" by (simp add: nth_append)
      with i have "x \<in> set A" by (metis nth_mem)
      with assms(2) have ne: "A \<noteq> []" and l: "last A = x" by simp_all
      from ne l have lastx: "A ! (length A - 1) = x" by (simp add: last_conv_nth)
      show ?thesis
      proof (cases "j = length A - 1")
        case True
        with lastx xi show ?thesis by simp
      next
        case False
        with j have 1: "j < length A - 1" by simp
        from ne have 2: "length A - 1 < length A" by simp
        from lastx xi have 3: "A ! i = A ! (length A - 1)" by simp
        from ij 1 2 3 show ?thesis by (rule adj)
      qed
    qed
    with i j show ?thesis by (simp add: nth_append)
  qed
  then show ?thesis
    unfolding shared_levels_adjacent_def by blast
qed

lemma count_remdups_adj_tail:
  "count_list (remdups_adj (t # rest)) x \<le> 1 \<Longrightarrow> count_list (remdups_adj rest) x \<le> 1"
  by (cases rest) (auto split: if_splits)

lemma repeated_name_is_next:
  assumes "count_list (remdups_adj (x # rest)) x \<le> 1" and "x \<in> set rest"
  shows "rest \<noteq> [] \<and> hd rest = x"
proof (cases rest)
  case Nil
  with assms(2) show ?thesis by simp
next
  case (Cons u ts)
  show ?thesis
  proof (cases "u = x")
    case True
    with Cons show ?thesis by simp
  next
    case False
    with assms(1) Cons have "count_list (remdups_adj (u # ts)) x = 0" by simp
    then have "x \<notin> set (remdups_adj (u # ts))" by (rule iffD1 [OF count_list_0_iff])
    with assms(2) Cons show ?thesis by simp
  qed
qed

lemma collect_levels_adjacent:
  assumes "collect_levels text sa ta types s = Inr s'"
    and "shared_levels_adjacent (boundaries s)"
    and "\<forall>a\<in>set (boundaries s). a < next_addr s"
    and "sa < next_addr s" and "ta < next_addr s" and "sa \<noteq> ta"
    and "count_list (remdups_adj types) (lit ''sentences'') \<le> 1"
    and "count_list (remdups_adj types) (lit ''tokens'') \<le> 1"
    and "sa \<in> set (boundaries s) \<and> lit ''sentences'' \<in> set types
           \<longrightarrow> last (boundaries s) = sa \<and> hd types = lit ''sentences''"
    and "ta \<in> set (boundaries s) \<and> lit ''tokens'' \<in> set types
           \<longrightarrow> last (boundaries s) = ta \<and> hd types = lit ''tokens''"
  shows "shared_levels_adjacent (boundaries s')"
  using assms
proof (induction types arbitrary: s)
  case Nil
  then show ?case by simp
next
  case (Cons u rest)
  note counts = count_remdups_adj_tail [OF Cons.prems(7)] count_remdups_adj_tail [OF Cons.prems(8)]
  let ?fresh = "\<lambda>xs. \<lparr>boundaries = boundaries s @ [next_addr s],
      heap = (heap s)(next_addr s := xs), next_addr = Suc (next_addr s)\<rparr>"
  have fresh: "shared_levels_adjacent (boundaries s')"
    if r: "collect_levels text sa ta rest (?fresh xs) = Inr s'"
      and u: "u \<noteq> lit ''sentences''" "u \<noteq> lit ''tokens''" for xs
  proof (rule Cons.IH [OF r])
    have "next_addr s \<notin> set (boundaries s)"
      using Cons.prems(3) by auto
    with Cons.prems(2) have "shared_levels_adjacent (boundaries s @ [next_addr s])"
      by (intro adjacent_snoc) simp_all
    then show "shared_levels_adjacent (boundaries (?fresh xs))" by simp
    show "\<forall>a\<in>set (boundaries (?fresh xs)). a < next_addr (?fresh xs)"
      using Cons.prems(3) by (auto simp: less_Suc_eq)
    show "sa < next_addr (?fresh xs)" "ta < next_addr (?fresh xs)"
      using Cons.prems(4,5) by simp_all
    show "sa \<noteq> ta" by (rule Cons.prems(6))
    show "count_list (remdups_adj rest) (lit ''sentences'') \<le> 1"
      "count_list (remdups_adj rest) (lit ''tokens'') \<le> 1"
      by (rule counts)+
    show "sa \<in> set (boundaries (?fresh xs)) \<and> lit ''sentences'' \<in> set rest
        \<longrightarrow> last (boundaries (?fresh xs)) = sa \<and> hd rest = lit ''sentences''"
    proof
      assume "sa \<in> set (boundaries (?fresh xs)) \<and> lit ''sentences'' \<in> set rest"
      with Cons.prems(4) have "sa \<in> set (boundaries s) \<and> lit ''sentences'' \<in> set (u # rest)"
        by auto
      with Cons.prems(9) have "u = lit ''sentences''" by (simp only: list.sel) 
      with u(1) show "last (boundaries (?fresh xs)) = sa \<and> hd rest = lit ''sentences''"
        by blast
    qed
    show "ta \<in> set (boundaries (?fresh xs)) \<and> lit ''tokens'' \<in> set rest
        \<longrightarrow> last (boundaries (?fresh xs)) = ta \<and> hd rest = lit ''tokens''"
    proof
      assume "ta \<in> set (boundaries (?fresh xs)) \<and> lit ''tokens'' \<in> set rest"
      with Cons.prems(5) have "ta \<in> set (boundaries s) \<and> lit ''tokens'' \<in> set (u # rest)"
        by auto
      with Cons.prems(10) have "u = lit ''tokens''" by (simp only: list.sel)
      with u(2) show "last (boundaries (?fresh xs)) = ta \<and> hd rest = lit ''tokens''"
        by blast
    qed
  qed
  have shared: "shared_levels_adjacent (boundaries s')"
    if r: "collect_levels text sa ta rest (s\<lparr>boundaries := boundaries s @ [a]\<rparr>) = Inr s'"
      and a: "a < next_addr s"
      and same: "a \<in> set (boundaries s) \<longrightarrow> last (boundaries s) = a"
      and sa': "sa \<in> set (boundaries s @ [a]) \<and> lit ''sentences'' \<in> set rest
          \<longrightarrow> last (boundaries s @ [a]) = sa \<and> hd rest = lit ''sentences''"
      and ta': "ta \<in> set (boundaries s @ [a]) \<and> lit ''tokens'' \<in> set rest
          \<longrightarrow> last (boundaries s @ [a]) = ta \<and> hd rest = lit ''tokens''" for a
  proof (rule Cons.IH [OF r])
    from same have "a \<notin> set (boundaries s) \<or> (boundaries s \<noteq> [] \<and> last (boundaries s) = a)"
      by auto
    with Cons.prems(2) have "shared_levels_adjacent (boundaries s @ [a])"
      by (rule adjacent_snoc)
    then show "shared_levels_adjacent (boundaries (s\<lparr>boundaries := boundaries s @ [a]\<rparr>))"
      by simp
    show "\<forall>b\<in>set (boundaries (s\<lparr>boundaries := boundaries s @ [a]\<rparr>)).
        b < next_addr (s\<lparr>boundaries := boundaries s @ [a]\<rparr>)"
      using Cons.prems(3) a by auto
    show "sa < next_addr (s\<lparr>boundaries := boundaries s @ [a]\<rparr>)"
      "ta < next_addr (s\<lparr>boundaries := boundaries s @ [a]\<rparr>)"
      using Cons.prems(4,5) by simp_all
    show "sa \<noteq> ta" by (rule Cons.prems(6))
    show "count_list (remdups_adj rest) (lit ''sentences'') \<le> 1"
      "count_list (remdups_adj rest) (lit ''tokens'') \<le> 1"
      by (rule counts)+
    show "sa \<in> set (boundaries (s\<lparr>boundaries := boundaries s @ [a]\<rparr>))
          \<and> lit ''sentences'' \<in> set rest
        \<longrightarrow> last (boundaries (s\<lparr>boundaries := boundaries s @ [a]\<rparr>)) = sa
          \<and> hd rest = lit ''sentences''"
      using sa' by simp
    show "ta \<in> set (boundaries (s\<lparr>boundaries := boundaries s @ [a]\<rparr>))
          \<and> lit ''tokens'' \<in> set rest
        \<longrightarrow> last (boundaries (s\<lparr>boundaries := boundaries s @ [a]\<rparr>)) = ta
          \<and> hd rest = lit ''tokens''"
      using ta' by simp
  qed
  from Cons.prems(1) consider
      (p) "u = lit ''paragraphs''"
        "collect_levels text sa ta rest
           (?fresh (offsets_loop 2 0 [] (re_split paragraph_delimiters text))) = Inr s'"
    | (s) "u = lit ''sentences''"
        "collect_levels text sa ta rest (s\<lparr>boundaries := boundaries s @ [sa]\<rparr>) = Inr s'"
    | (u) "u = lit ''subparts''"
        "collect_levels text sa ta rest
           (?fresh (offsets_loop 2 0 [] (re_split subpart_delimiters text))) = Inr s'"
    | (t) "u = lit ''tokens''"
        "collect_levels text sa ta rest (s\<lparr>boundaries := boundaries s @ [ta]\<rparr>) = Inr s'"
    unfolding collect_levels_Cons by (auto split: if_splits)
  then show ?case
  proof cases
    case p
    show ?thesis
      by (rule fresh [OF p(2)]) (simp_all only: p(1) chunk_type_names not_False_eq_True)
  next
    case u
    show ?thesis
      by (rule fresh [OF u(2)])
        (simp_all only: u(1) chunk_type_names chunk_type_names [symmetric] not_False_eq_True)
  next
    case s
    show ?thesis
    proof (rule shared [OF s(2) Cons.prems(4)])
      show "sa \<in> set (boundaries s) \<longrightarrow> last (boundaries s) = sa"
        using Cons.prems(9) s(1) by simp
      show "sa \<in> set (boundaries s @ [sa]) \<and> lit ''sentences'' \<in> set rest
          \<longrightarrow> last (boundaries s @ [sa]) = sa \<and> hd rest = lit ''sentences''"
        using repeated_name_is_next [of "lit ''sentences''" rest] Cons.prems(7) s(1)
        by simp
      show "ta \<in> set (boundaries s @ [sa]) \<and> lit ''tokens'' \<in> set rest
          \<longrightarrow> last (boundaries s @ [sa]) = ta \<and> hd rest = lit ''tokens''"
        using Cons.prems(6,10) s(1) by auto
    qed
  next
    case t
    show ?thesis
    proof (rule shared [OF t(2) Cons.prems(5)])
      show "ta \<in> set (boundaries s) \<longrightarrow> last (boundaries s) = ta"
        using Cons.prems(10) t(1) by simp
      show "ta \<in> set (boundaries s @ [ta]) \<and> lit ''tokens'' \<in> set rest
          \<longrightarrow> last (boundaries s @ [ta]) = ta \<and> hd rest = lit ''tokens''"
        using repeated_name_is_next [of "lit ''tokens''" rest] Cons.prems(8) t(1)
        by simp
      show "sa \<in> set (boundaries s @ [ta]) \<and> lit ''sentences'' \<in> set rest
          \<longrightarrow> last (boundaries s @ [ta]) = sa \<and> hd rest = lit ''sentences''"
        using Cons.prems(6,9) t(1) by auto
    qed
  qed
qed

subsection \<open>The function as a whole\<close>

lemma start_chars_ok:
  assumes "delimiters_ok doc sbc tbc"
  shows "\<exists>ss ts. start_chars doc sbc tbc = Inr (doc_text doc, ss, ts)"
proof (cases doc)
  case (PlainText tx)
  with assms have "uniform_delimiters sbc" and "uniform_delimiters tbc"
    by (simp_all add: delimiters_ok_def)
  then obtain ss ts where "get_split_offsets tx sbc = Inr ss"
    and "get_split_offsets tx tbc = Inr ts"
    using get_split_offsets_uniform_delimiters by blast
  with PlainText show ?thesis by (simp add: start_chars_def)
next
  case (AnnotatedDoc tx sents tokens)
  then show ?thesis by (simp add: start_chars_def)
qed

lemma get_semantic_bounderies_Inr:
  assumes "get_semantic_bounderies doc types sbc tbc = Inr H"
  obtains tx ss ts s' where "start_chars doc sbc tbc = Inr (tx, ss, ts)"
    and "collect_levels tx 0 1 types
           \<lparr>boundaries = [], heap = (\<lambda>a. [])(0 := ss, 1 := ts), next_addr = 2\<rparr> = Inr s'"
    and "H = map (enforce_subsets (boundaries s') (heap s')) (boundaries s')"
  using assms unfolding get_semantic_bounderies_def
  by (auto split: sum.splits prod.splits)

lemma get_semantic_bounderies_start:
  assumes "start_chars doc sbc tbc = Inr (text, ss, ts)"
  shows "get_semantic_bounderies doc types sbc tbc
         = (case collect_levels text 0 1 types
                  \<lparr>boundaries = [], heap = (\<lambda>a. [])(0 := ss, 1 := ts), next_addr = 2\<rparr> of
              Inl e \<Rightarrow> Inl e
            | Inr s \<Rightarrow> Inr (map (enforce_subsets (boundaries s) (heap s)) (boundaries s)))"
  using assms by (simp add: get_semantic_bounderies_def)

text \<open>
  Where the loops do establish the subset invariant: whenever the requests for
  \<open>"sentences"\<close> are adjacent in the list and so are the requests for \<open>"tokens"\<close>. Every
  list without a repeated name and every list ordered from coarser to finer is of this
  kind, the default list among them.
\<close>

lemma extractor_levels_nested:
  assumes "count_list (remdups_adj types) (lit ''sentences'') \<le> 1"
    and "count_list (remdups_adj types) (lit ''tokens'') \<le> 1"
    and "get_semantic_bounderies doc types sbc tbc = Inr H"
    and "i < j" and "j < length H"
  shows "set (H ! i) \<subseteq> set (H ! j)"
proof -
  from assms(3) obtain tx ss ts s' where
    c: "collect_levels tx 0 1 types
          \<lparr>boundaries = [], heap = (\<lambda>a. [])(0 := ss, 1 := ts), next_addr = 2\<rparr> = Inr s'"
    and H: "H = map (enforce_subsets (boundaries s') (heap s')) (boundaries s')"
    by (rule get_semantic_bounderies_Inr)
  have d: "shared_levels_adjacent (boundaries s')"
  proof (rule collect_levels_adjacent [OF c])
    show "shared_levels_adjacent
        (boundaries \<lparr>boundaries = [], heap = (\<lambda>a. [])(0 := ss, 1 := ts), next_addr = 2\<rparr>)"
      by (simp add: shared_levels_adjacent_def)
    show "count_list (remdups_adj types) (lit ''sentences'') \<le> 1"
      "count_list (remdups_adj types) (lit ''tokens'') \<le> 1"
      by (rule assms(1), rule assms(2))
  qed simp_all
  from assms(4,5) H have j: "j < length (boundaries s')" and i: "i < length (boundaries s')"
    by simp_all
  from enforce_subsets_invariant [OF d assms(4) j, of "heap s'"] i j H
  show ?thesis by simp
qed

lemma extractor_returns:
  assumes "set types \<subseteq> set default_chunk_types" and "delimiters_ok doc sbc tbc"
  shows "\<exists>H. get_semantic_bounderies doc types sbc tbc = Inr H \<and> length H = length types"
proof -
  from assms(2) obtain ss ts where s: "start_chars doc sbc tbc = Inr (doc_text doc, ss, ts)"
    using start_chars_ok by blast
  from assms(1) obtain s' where
    c: "collect_levels (doc_text doc) 0 1 types
          \<lparr>boundaries = [], heap = (\<lambda>a. [])(0 := ss, 1 := ts), next_addr = 2\<rparr> = Inr s'"
    using collect_levels_known by blast
  from collect_levels_length [OF c] have "length (boundaries s') = length types" by simp
  with c show ?thesis
    by (simp add: get_semantic_bounderies_start [OF s])
qed

lemma extractor_unknown_fails:
  assumes "t \<in> set types" and "t \<notin> set default_chunk_types"
  shows "\<exists>e. get_semantic_bounderies doc types sbc tbc = Inl e"
proof (cases "start_chars doc sbc tbc")
  case (Inl e)
  then show ?thesis by (simp add: get_semantic_bounderies_def)
next
  case (Inr x)
  then obtain tx ss ts where "start_chars doc sbc tbc = Inr (tx, ss, ts)"
    by (cases x) auto
  from get_semantic_bounderies_start [OF this] collect_levels_unknown [OF assms]
  show ?thesis by simp
qed

lemma extractor_unknown_ValueError:
  assumes "t \<in> set types" and "t \<notin> set default_chunk_types"
    and "delimiters_ok doc sbc tbc"
  shows "get_semantic_bounderies doc types sbc tbc = Inl ValueError"
proof -
  from assms(3) obtain ss ts where "start_chars doc sbc tbc = Inr (doc_text doc, ss, ts)"
    using start_chars_ok by blast
  from get_semantic_bounderies_start [OF this] collect_levels_unknown [OF assms(1,2)]
  show ?thesis by simp
qed

lemma extractor_subparts_only:
  assumes "start_chars doc sbc tbc = Inr (text, ss, ts)"
  shows "get_semantic_bounderies doc [lit ''subparts''] sbc tbc
         = Inr [offsets_loop 2 0 [] (re_split subpart_delimiters text)]"
proof -
  have "collect_levels text 0 1 [lit ''subparts'']
          \<lparr>boundaries = [], heap = (\<lambda>a. [])(0 := ss, 1 := ts), next_addr = 2\<rparr>
        = Inr \<lparr>boundaries = [2],
            heap = ((\<lambda>a. [])(0 := ss, 1 := ts))
              (2 := offsets_loop 2 0 [] (re_split subpart_delimiters text)),
            next_addr = 3\<rparr>"
    by (simp add: get_split_offsets_subparts)
  then show ?thesis
    by (simp add: get_semantic_bounderies_start [OF assms] enforce_subsets_def)
qed


text \<open>
  Claim C7. When the requested list holds a name outside \<open>"paragraphs"\<close>,
  \<open>"sentences"\<close>, \<open>"subparts"\<close>, \<open>"tokens"\<close>, \<open>get_semantic_bounderies\<close> returns no
  hierarchy. It raises the ValueError of line 76 for every \<open>Doc\<close>, and for every plain
  string whose delimiter arguments pass the checks of \<open>get_split_offsets\<close>, as the
  default arguments do. (For a plain string, lines 51 and 52 call the splitter before the
  names are read, and a delimiter argument it rejects raises there.) The list
  \<open>["paragraphs", "lines"]\<close> is the instance of the witness.
\<close>

theorem unknown_chunk_type_raises:
  assumes "t \<in> set types" and "t \<notin> set default_chunk_types"
  shows "(\<exists>e. get_semantic_bounderies doc types sbc tbc = Inl e)
       \<and> (delimiters_ok doc sbc tbc
            \<longrightarrow> get_semantic_bounderies doc types sbc tbc = Inl ValueError)"
  using extractor_unknown_fails [OF assms] extractor_unknown_ValueError [OF assms] by blast

theorem unknown_chunk_type_raises_witness:
  "lit ''lines'' \<in> set [lit ''paragraphs'', lit ''lines'']
   \<and> lit ''lines'' \<notin> set default_chunk_types
   \<and> delimiters_ok (PlainText (lit ''a b'')) default_sentence_boundary_chars
       default_token_boundary_chars
   \<and> get_semantic_bounderies (PlainText (lit ''a b'')) [lit ''paragraphs'', lit ''lines'']
       default_sentence_boundary_chars default_token_boundary_chars = Inl ValueError"
proof -
  have a: "lit ''lines'' \<in> set [lit ''paragraphs'', lit ''lines'']" by simp
  have b: "lit ''lines'' \<notin> set default_chunk_types"
    by (simp add: default_chunk_types_def)
  have d: "delimiters_ok (PlainText (lit ''a b'')) default_sentence_boundary_chars
      default_token_boundary_chars"
    by (simp add: delimiters_ok_def uniform_delimiters_def default_sentence_boundary_chars_def
        default_token_boundary_chars_def)
  from unknown_chunk_type_raises [OF a b, of "PlainText (lit ''a b'')"
      default_sentence_boundary_chars default_token_boundary_chars] d
  have "get_semantic_bounderies (PlainText (lit ''a b'')) [lit ''paragraphs'', lit ''lines'']
       default_sentence_boundary_chars default_token_boundary_chars = Inl ValueError"
    by blast
  with a b d show ?thesis by blast
qed

text \<open>
  Claim C9. For the requested list \<open>["subparts"]\<close> alone, \<open>get_semantic_bounderies\<close>
  returns the hierarchy of one level that holds the offsets of \<open>get_split_offsets\<close> on
  the document's text with the delimiters \<open>[": ", "; ", ", "]\<close>, for a \<open>Doc\<close> and for a
  plain string (whose delimiter arguments pass the splitter's checks) alike. The result
  for a \<open>Doc\<close> does not depend on its sentence and token spans: it is the result for
  the plain string of the same text.
\<close>

theorem subparts_never_from_annotation:
  "(delimiters_ok doc sbc tbc \<longrightarrow>
      (\<exists>offsets. get_split_offsets (doc_text doc) subpart_delimiters = Inr offsets
         \<and> get_semantic_bounderies doc [lit ''subparts''] sbc tbc = Inr [offsets]))
   \<and> get_semantic_bounderies (AnnotatedDoc text sents tokens) [lit ''subparts''] sbc tbc
       = get_semantic_bounderies (PlainText text) [lit ''subparts'']
           default_sentence_boundary_chars default_token_boundary_chars
   \<and> subpart_delimiters = [lit '': '', lit ''; '', lit '', '']"
proof -
  have 1: "delimiters_ok doc sbc tbc \<longrightarrow>
      (\<exists>offsets. get_split_offsets (doc_text doc) subpart_delimiters = Inr offsets
         \<and> get_semantic_bounderies doc [lit ''subparts''] sbc tbc = Inr [offsets])"
  proof
    assume "delimiters_ok doc sbc tbc"
    then obtain ss ts where "start_chars doc sbc tbc = Inr (doc_text doc, ss, ts)"
      using start_chars_ok by blast
    from extractor_subparts_only [OF this] get_split_offsets_subparts [of "doc_text doc"]
    show "\<exists>offsets. get_split_offsets (doc_text doc) subpart_delimiters = Inr offsets
         \<and> get_semantic_bounderies doc [lit ''subparts''] sbc tbc = Inr [offsets]"
      by blast
  qed
  have a: "start_chars (AnnotatedDoc text sents tokens) sbc tbc = Inr (text, sents, tokens)"
    by (simp add: start_chars_def)
  have "delimiters_ok (PlainText text) default_sentence_boundary_chars
      default_token_boundary_chars"
    by (simp add: delimiters_ok_def uniform_delimiters_def default_sentence_boundary_chars_def
        default_token_boundary_chars_def)
  then obtain ss ts where p: "start_chars (PlainText text) default_sentence_boundary_chars
      default_token_boundary_chars = Inr (doc_text (PlainText text), ss, ts)"
    using start_chars_ok by blast
  have 2: "get_semantic_bounderies (AnnotatedDoc text sents tokens) [lit ''subparts''] sbc tbc
       = get_semantic_bounderies (PlainText text) [lit ''subparts'']
           default_sentence_boundary_chars default_token_boundary_chars"
    using extractor_subparts_only [OF a] extractor_subparts_only [OF p] by simp
  have 3: "subpart_delimiters = [lit '': '', lit ''; '', lit '', '']"
    by (rule subpart_delimiters_def)
  from 1 2 3 show ?thesis by blast
qed

theorem subparts_never_from_annotation_witness:
  "delimiters_ok (AnnotatedDoc (lit ''a, b; c'') [0] [0, 1, 3, 4, 6]) [] []
   \<and> get_split_offsets (lit ''a, b; c'') subpart_delimiters = Inr [0, 3, 6]
   \<and> get_semantic_bounderies (AnnotatedDoc (lit ''a, b; c'') [0] [0, 1, 3, 4, 6])
       [lit ''subparts''] [] [] = Inr [[0, 3, 6]]
   \<and> get_semantic_bounderies (PlainText (lit ''a, b; c'')) [lit ''subparts'']
       default_sentence_boundary_chars default_token_boundary_chars = Inr [[0, 3, 6]]"
proof -
  have d: "delimiters_ok (AnnotatedDoc (lit ''a, b; c'') [0] [0, 1, 3, 4, 6]) [] []"
    by (simp add: delimiters_ok_def)
  have s: "get_split_offsets (lit ''a, b; c'') subpart_delimiters = Inr [0, 3, 6]"
    by code_simp
  note t = subparts_never_from_annotation [of "AnnotatedDoc (lit ''a, b; c'') [0] [0, 1, 3, 4, 6]"
      "[]" "[]" "lit ''a, b; c''" "[0]" "[0, 1, 3, 4, 6]"]
  from t d s have a: "get_semantic_bounderies (AnnotatedDoc (lit ''a, b; c'') [0] [0, 1, 3, 4, 6])
       [lit ''subparts''] [] [] = Inr [[0, 3, 6]]"
    by auto
  with t have "get_semantic_bounderies (PlainText (lit ''a, b; c'')) [lit ''subparts'']
       default_sentence_boundary_chars default_token_boundary_chars = Inr [[0, 3, 6]]"
    by simp
  with d s a show ?thesis by blast
qed

end
